theory Spec2Isabelle
  imports Main
begin

section \<open>Model of the tokenization pipeline and of the training driver\<close>

text \<open>
  The two programs of the repository are \<^verbatim>\<open>no_tokenize.py\<close> (ingest of two corpus
  files into documents and the writing of eight shards) and \<^verbatim>\<open>train.py\<close> (the
  distributed training driver). Python integers are unbounded and are modelled by
  \<^typ>\<open>int\<close>; \<^verbatim>\<open>//\<close> and \<^verbatim>\<open>%\<close> round towards minus infinity, as \<open>div\<close> and
  \<open>mod\<close> on \<^typ>\<open>int\<close> do. Every exception the modelled code can raise by itself is a
  value of \<open>py_error\<close>; failures of the operating system (a missing file, a full disk)
  are outside the model.
\<close>

datatype py_error = ZeroDivisionError | IndexError | AttributeError | ValueError | RuntimeError

subsection \<open>train.py: setup_training, the local device index\<close>

text \<open>
  \<^verbatim>\<open>local_rank = rank - gpus_per_node * (rank // gpus_per_node)\<close>
\<close>

definition local_rank :: "int \<Rightarrow> int \<Rightarrow> py_error + int" where
  "local_rank rank gpus_per_node =
     (if gpus_per_node = 0 then Inl ZeroDivisionError
      else Inr (rank - gpus_per_node * (rank div gpus_per_node)))"

subsection \<open>train.py: training_epoch, the seed of the data loader\<close>

text \<open>
  The fourth argument of the call of \<^verbatim>\<open>create_train_dataloader\<close> in
  \<^verbatim>\<open>training_epoch\<close>:
  \<^verbatim>\<open>args.seed + get_rank() + epoch * get_world_size()\<close>.
  The rank and the world size come from \<^verbatim>\<open>utils\<close> and are parameters here.
\<close>

definition dataloader_seed :: "int \<Rightarrow> int \<Rightarrow> int \<Rightarrow> int \<Rightarrow> int" where
  "dataloader_seed seed rank epoch world_size = seed + rank + epoch * world_size"

subsection \<open>train.py: load_dataset, the agreed epoch length\<close>

text \<open>
  \<^verbatim>\<open>min_length = torch.tensor(len(train_data) // batch_size, dtype=torch.long) // 16\<close>
  is what one rank computes before the reduction. A Python list is shorter than \<open>2^63\<close>,
  so the quotient fits the 64-bit tensor and no wrap-around occurs. Both divisions round
  down; the quotient by a positive batch size is not negative, where every rounding of
  the division by 16 agrees.
\<close>

definition local_min_length :: "nat \<Rightarrow> int \<Rightarrow> py_error + int" where
  "local_min_length len_train_data batch_size =
     (if batch_size = 0 then Inl ZeroDivisionError
      else Inr ((int len_train_data div batch_size) div 16))"

text \<open>
  \<^verbatim>\<open>torch.distributed.all_reduce(min_length, ReduceOp.MIN)\<close>: the list holds the tensor
  of every rank, in rank order, before the call; the result holds them after it.
\<close>

fun all_reduce_MIN :: "int list \<Rightarrow> int list" where
  "all_reduce_MIN [] = []"
| "all_reduce_MIN (x # xs) = replicate (Suc (length xs)) (fold min xs x)"

fun collect :: "(py_error + 'a) list \<Rightarrow> py_error + 'a list" where
  "collect [] = Inr []"
| "collect (r # rs) =
     (case r of
        Inl e \<Rightarrow> Inl e
      | Inr x \<Rightarrow> (case collect rs of Inl e \<Rightarrow> Inl e | Inr xs \<Rightarrow> Inr (x # xs)))"

text \<open>
  The second component of the result of \<^verbatim>\<open>load_dataset\<close>, on every rank at once:
  \<open>lens ! r\<close> is \<^verbatim>\<open>len(train_data)\<close> on rank \<open>r\<close>.
\<close>

definition load_dataset_min_length :: "int \<Rightarrow> nat list \<Rightarrow> py_error + int list" where
  "load_dataset_min_length batch_size lens =
     (case collect (map (\<lambda>n. local_min_length n batch_size) lens) of
        Inl e \<Rightarrow> Inl e
      | Inr locals \<Rightarrow> Inr (all_reduce_MIN locals))"

subsection \<open>no_tokenize.py: Processor.load_and_tokenize\<close>

text \<open>
  A Python string is a list of code points. \<open>isspace\<close> is the set of code points that
  \<^verbatim>\<open>str.strip()\<close> removes (the Unicode white space of CPython).
\<close>

type_synonym pystr = "nat list"

definition isspace :: "nat \<Rightarrow> bool" where
  "isspace c =
     ((9 \<le> c \<and> c \<le> 13) \<or> (28 \<le> c \<and> c \<le> 32) \<or> c = 133 \<or> c = 160 \<or> c = 5760 \<or>
      (8192 \<le> c \<and> c \<le> 8202) \<or> c = 8232 \<or> c = 8233 \<or> c = 8239 \<or> c = 8287 \<or> c = 12288)"

definition strip :: "pystr \<Rightarrow> pystr" where
  "strip s = rev (dropWhile isspace (rev (dropWhile isspace s)))"

text \<open>
  A document is the list of the token arrays of its lines. The tokenizer is external:
  \<open>encode line is_pretokenized add_special_tokens\<close> stands for
  \<^verbatim>\<open>self.tokenizer.encode(line, is_pretokenized=..., add_special_tokens=...).ids\<close>.
\<close>

type_synonym document = "int list list"

type_synonym tokenizer = "pystr \<Rightarrow> bool \<Rightarrow> bool \<Rightarrow> int list"

text \<open>\<^verbatim>\<open>self.documents[-1].append(np.array(tokens))\<close>; the index raises on an empty list.\<close>

definition append_to_last :: "document list \<Rightarrow> int list \<Rightarrow> py_error + document list" where
  "append_to_last documents tokens =
     (case documents of
        [] \<Rightarrow> Inl IndexError
      | _ # _ \<Rightarrow> Inr (butlast documents @ [last documents @ [tokens]]))"

text \<open>The body of the inner loop; the state is \<open>(self.documents, total_tokens)\<close>.\<close>

definition line_step ::
  "tokenizer \<Rightarrow> document list \<times> int \<Rightarrow> pystr \<Rightarrow> py_error + document list \<times> int" where
  "line_step encode st raw =
     (let line = strip raw in
      if line = [] then Inr (fst st @ [[]], snd st)
      else
        (let tokens = encode line False False in
         if length tokens > 0 then
           (case append_to_last (fst st) tokens of
              Inl e \<Rightarrow> Inl e
            | Inr documents \<Rightarrow> Inr (documents, snd st + int (length tokens)))
         else Inr st))"

text \<open>\<^verbatim>\<open>for line in reader.readlines()\<close>\<close>

fun for_lines ::
  "tokenizer \<Rightarrow> document list \<times> int \<Rightarrow> pystr list \<Rightarrow> py_error + document list \<times> int" where
  "for_lines encode st [] = Inr st"
| "for_lines encode st (raw # rest) =
     (case line_step encode st raw of
        Inl e \<Rightarrow> Inl e
      | Inr st' \<Rightarrow> for_lines encode st' rest)"

text \<open>\<^verbatim>\<open>for path in [ncc_path, c4_path]\<close>; a file is the list of its lines.\<close>

fun for_paths ::
  "tokenizer \<Rightarrow> document list \<times> int \<Rightarrow> pystr list list \<Rightarrow> py_error + document list \<times> int" where
  "for_paths encode st [] = Inr st"
| "for_paths encode st (file # files) =
     (case for_lines encode st file of
        Inl e \<Rightarrow> Inl e
      | Inr st' \<Rightarrow> for_paths encode st' files)"

text \<open>The result is \<open>(self.documents, total_tokens)\<close> at the end of the method.\<close>

definition load_and_tokenize ::
  "tokenizer \<Rightarrow> pystr list \<Rightarrow> pystr list \<Rightarrow> py_error + document list \<times> int" where
  "load_and_tokenize encode ncc c4 =
     (case for_paths encode ([[]], 0) [ncc, c4] of
        Inl e \<Rightarrow> Inl e
      | Inr st \<Rightarrow> Inr (filter (\<lambda>document. length document > 0) (fst st), snd st))"

text \<open>
  For the statements about ingest: the groups of a list between its delimiters, the
  document a run of stripped lines gives, and the tokenizer of the scenario of the
  specification, which maps each word of a line to its identifier.
\<close>

fun split_at :: "('a \<Rightarrow> bool) \<Rightarrow> 'a list \<Rightarrow> 'a list list" where
  "split_at P [] = [[]]"
| "split_at P (x # xs) =
     (if P x then [] # split_at P xs
      else (x # hd (split_at P xs)) # tl (split_at P xs))"

definition document_of :: "tokenizer \<Rightarrow> pystr list \<Rightarrow> document" where
  "document_of encode stripped_lines =
     filter (\<lambda>tokens. length tokens > 0) (map (\<lambda>line. encode line False False) stripped_lines)"

definition blank :: "pystr \<Rightarrow> bool" where
  "blank raw = (strip raw = [])"

definition word_tokenizer :: "(pystr \<Rightarrow> int) \<Rightarrow> tokenizer" where
  "word_tokenizer tok line is_pretokenized add_special_tokens =
     map tok (filter (\<lambda>w. w \<noteq> []) (split_at isspace line))"

definition py :: "string \<Rightarrow> pystr" where
  "py s = map of_char s"

text \<open>
  The documents that a sequence of raw lines gives, and the number of tokens counted
  for it: what the statements about ingest compare the loop with.
\<close>

definition documents_of :: "tokenizer \<Rightarrow> pystr list \<Rightarrow> document list" where
  "documents_of encode lines =
     filter (\<lambda>document. document \<noteq> [])
       (map (document_of encode) (split_at (\<lambda>line. line = []) (map strip lines)))"

definition token_total :: "tokenizer \<Rightarrow> pystr list \<Rightarrow> int" where
  "token_total encode lines =
     (\<Sum>raw\<leftarrow>lines. if strip raw = [] then 0 else int (length (encode (strip raw) False False)))"

subsection \<open>no_tokenize.py: Processor.save\<close>

text \<open>
  \<^verbatim>\<open>range(start, stop, step)\<close> for a positive step and \<^verbatim>\<open>xs[i::step]\<close> for
  \<open>0 \<le> i\<close>: the elements at the indices \<^verbatim>\<open>range(i, len(xs), step)\<close>.
\<close>

definition py_range :: "nat \<Rightarrow> nat \<Rightarrow> nat \<Rightarrow> nat list" where
  "py_range start stop step =
     map (\<lambda>k. start + k * step) [0..<(stop + step - 1 - start) div step]"

definition slice_from :: "'a list \<Rightarrow> nat \<Rightarrow> nat \<Rightarrow> 'a list" where
  "slice_from xs i step = map (\<lambda>k. xs ! k) (py_range i (length xs) step)"

text \<open>
  The writes of \<^verbatim>\<open>save\<close>, in order: the path \<^verbatim>\<open>self.output_path.format(RANK * 8 + i)\<close>
  and the object pickled there. \<open>output_path_format\<close> stands for the format method of
  the configured template.
\<close>

definition Processor_save ::
  "(int \<Rightarrow> string) \<Rightarrow> int \<Rightarrow> document list \<Rightarrow> (string \<times> document list) list" where
  "Processor_save output_path_format RANK documents =
     map (\<lambda>i. (output_path_format (RANK * 8 + int i), slice_from documents i 8)) [0..<8]"

text \<open>
  A file system maps a path to the bytes of the file there. Opening a file for writing
  truncates it; its content then grows to the bytes written. \<open>write_states\<close> lists the
  states another process, or a restart after a crash, can see during one such write.
\<close>

type_synonym 'b fs = "string \<Rightarrow> 'b list option"

definition write_states :: "string \<Rightarrow> 'b list \<Rightarrow> 'b fs \<Rightarrow> 'b fs list" where
  "write_states path bytes fs = map (\<lambda>k. fs(path \<mapsto> take k bytes)) [0..<Suc (length bytes)]"

text \<open>
  \<^verbatim>\<open>with gzip.open(path, mode='wb') as f: pickle.dump(obj, f, protocol=-1)\<close> for each
  write of the loop; \<open>dump\<close> gives the bytes of the compressed pickle of an object.
\<close>

fun dump_states :: "('o \<Rightarrow> 'b list) \<Rightarrow> (string \<times> 'o) list \<Rightarrow> 'b fs \<Rightarrow> 'b fs list" where
  "dump_states dump [] fs = []"
| "dump_states dump ((path, obj) # rest) fs =
     write_states path (dump obj) fs @ dump_states dump rest (fs(path \<mapsto> dump obj))"

definition Processor_save_states ::
  "(document list \<Rightarrow> 'b list) \<Rightarrow> (int \<Rightarrow> string) \<Rightarrow> int \<Rightarrow> document list \<Rightarrow> 'b fs \<Rightarrow> 'b fs list" where
  "Processor_save_states dump output_path_format RANK documents fs =
     fs # dump_states dump (Processor_save output_path_format RANK documents) fs"

subsection \<open>train.py: save, the checkpoint file\<close>

text \<open>
  The dictionary that \<^verbatim>\<open>save\<close> hands to \<^verbatim>\<open>torch.save\<close>. The four state dictionaries
  are values of an abstract type, the configuration is of the type of \<^verbatim>\<open>args\<close>.
\<close>

record ('s, 'a) checkpoint =
  ck_model :: 's
  ck_optimizer :: 's
  ck_grad_scaler :: 's
  ck_scheduler :: 's
  ck_global_step :: int
  ck_epoch :: int
  ck_args :: 'a

text \<open>
  Modelled from the spec: \<^verbatim>\<open>is_main_process\<close> of \<^verbatim>\<open>utils\<close>, which is not among the
  sources; the specification names rank 0 as the one designated process.
\<close>

definition is_main_process :: "int \<Rightarrow> bool" where
  "is_main_process rank = (rank = 0)"

text \<open>\<^verbatim>\<open>os.rename(src, dst)\<close> on a source that exists: the destination is replaced.\<close>

definition os_rename :: "string \<Rightarrow> string \<Rightarrow> 'b fs \<Rightarrow> 'b fs" where
  "os_rename src dst fs = (fs(dst := fs src))(src := None)"

definition checkpoint_path_of :: "string \<Rightarrow> string" where
  "checkpoint_path_of output_dir = output_dir @ ''/model.bin''"

text \<open>
  The states of the file system during one call of \<^verbatim>\<open>save\<close> on the process of the
  given rank: the state at the call, the state after the conditional rename, and the
  states of the write of \<^verbatim>\<open>torch.save\<close>. \<open>torch_save\<close> gives the bytes of a checkpoint.
\<close>

definition save_states ::
  "(('s, 'a) checkpoint \<Rightarrow> 'b list) \<Rightarrow> int \<Rightarrow> string \<Rightarrow> ('s, 'a) checkpoint \<Rightarrow> 'b fs \<Rightarrow> 'b fs list" where
  "save_states torch_save rank output_dir ck fs =
     (let checkpoint_path = checkpoint_path_of output_dir in
      if is_main_process rank then
        (let fs1 = (if fs checkpoint_path \<noteq> None
                    then os_rename checkpoint_path (checkpoint_path @ ''_tmp'') fs
                    else fs)
         in fs # fs1 # write_states checkpoint_path (torch_save ck) fs1)
      else [fs])"

text \<open>The call that runs to its end: the last state, and the path returned.\<close>

definition save ::
  "(('s, 'a) checkpoint \<Rightarrow> 'b list) \<Rightarrow> int \<Rightarrow> string \<Rightarrow> ('s, 'a) checkpoint \<Rightarrow> 'b fs \<Rightarrow> 'b fs \<times> string" where
  "save torch_save rank output_dir ck fs =
     (last (save_states torch_save rank output_dir ck fs), checkpoint_path_of output_dir)"

subsection \<open>train.py: the start of the main program\<close>

text \<open>
  The configuration is an \<^verbatim>\<open>argparse.Namespace\<close>: a map from field names to values.
  \<open>torch_load\<close> stands for \<^verbatim>\<open>torch.load\<close> and \<open>generated_id\<close> for
  \<^verbatim>\<open>wandb.util.generate_id()\<close>. The result is
  \<open>(checkpoint, initial_epoch, global_step, args)\<close>.
\<close>

datatype 'f pyval = PyNone | PyInt int | PyStr string | PyBool bool | PyFloat 'f

type_synonym 'f namespace = "string \<Rightarrow> 'f pyval option"

definition main_init ::
  "'f namespace \<Rightarrow> ('f pyval \<Rightarrow> ('s, 'f namespace) checkpoint) \<Rightarrow> int \<Rightarrow> 'f pyval \<Rightarrow>
   py_error + (('s, 'f namespace) checkpoint option \<times> int \<times> int \<times> 'f namespace)" where
  "main_init args torch_load SLURM_PROCID generated_id =
     (case args ''checkpoint_path'' of
        None \<Rightarrow> Inl AttributeError
      | Some PyNone \<Rightarrow>
          Inr (None, 0, 0,
               args(''wandb_id'' \<mapsto> (if SLURM_PROCID = 0 then generated_id else PyInt 0)))
      | Some path \<Rightarrow>
          (let checkpoint = torch_load path in
           Inr (Some checkpoint, ck_epoch checkpoint + 1, ck_global_step checkpoint,
                args ++ ck_args checkpoint)))"

subsection \<open>train.py: training_epoch and the loop over the epochs\<close>

text \<open>
  What the driver reads of its resolved configuration, and what it takes from outside:
  the shard that \<^verbatim>\<open>Dataset\<close> loads for a file index, the length of a shard, the batch
  the shuffled loader yields at a position for a seed, and the effect of one optimizer
  step on the training state.
\<close>

record args =
  args_seed :: int
  args_batch_size :: int
  args_device_max_steps :: int
  args_n_training_files :: int

record ('d, 'b, 's) env =
  Dataset :: "int \<Rightarrow> 'd"
  len :: "'d \<Rightarrow> nat"
  batch_of :: "'d \<Rightarrow> int \<Rightarrow> nat \<Rightarrow> 'b"
  optimizer_step :: "'s \<Rightarrow> 'b \<Rightarrow> 's"

text \<open>
  \<^verbatim>\<open>torch.Generator().manual_seed(seed)\<close> takes a seed that fits 64 bits, signed or
  unsigned, and raises a \<open>RuntimeError\<close> for any other.
\<close>

definition manual_seed_accepts :: "int \<Rightarrow> bool" where
  "manual_seed_accepts seed = (- (2 ^ 63) \<le> seed \<and> seed < 2 ^ 64)"

text \<open>
  \<^verbatim>\<open>DataLoader(data, shuffle=True, batch_size=batch_size, drop_last=True,
  generator=torch.Generator().manual_seed(seed), ...)\<close>: the generator is made first, as
  an argument of the call; the shuffling sampler refuses a shard without examples and the
  batch sampler a batch size that is not positive; the loader then yields the full
  batches only.
\<close>

definition create_train_dataloader ::
  "('d, 'b, 's) env \<Rightarrow> 'd \<Rightarrow> args \<Rightarrow> int \<Rightarrow> py_error + 'b list" where
  "create_train_dataloader E data a seed =
     (if \<not> manual_seed_accepts seed then Inl RuntimeError
      else if len E data = 0 then Inl ValueError
      else if args_batch_size a \<le> 0 then Inl ValueError
      else Inr (map (batch_of E data seed) [0..<len E data div nat (args_batch_size a)]))"

text \<open>
  The loop \<^verbatim>\<open>for local_step, batch in enumerate(train_iter)\<close>: one optimizer step, the
  increment of the global step, then the test that leaves the loop.
\<close>

fun run_steps ::
  "('s \<Rightarrow> 'b \<Rightarrow> 's) \<Rightarrow> int \<Rightarrow> int \<Rightarrow> 's \<Rightarrow> int \<Rightarrow> nat \<Rightarrow> 'b list \<Rightarrow> 's \<times> int" where
  "run_steps step device_max_steps max_local_steps st global_step local_step [] =
     (st, global_step)"
| "run_steps step device_max_steps max_local_steps st global_step local_step (batch # rest) =
     (let st' = step st batch; global_step' = global_step + 1 in
      if global_step' \<ge> device_max_steps \<or> int local_step \<ge> max_local_steps - 1
      then (st', global_step')
      else run_steps step device_max_steps max_local_steps st' global_step' (Suc local_step) rest)"

definition training_epoch ::
  "('d, 'b, 's) env \<Rightarrow> int \<Rightarrow> int \<Rightarrow> 'd \<Rightarrow> 's \<Rightarrow> int \<Rightarrow> int \<Rightarrow> args \<Rightarrow> int \<Rightarrow> py_error + 's \<times> int" where
  "training_epoch E rank world_size data st global_step epoch a max_local_steps =
     (case create_train_dataloader E data a
             (dataloader_seed (args_seed a) rank epoch world_size) of
        Inl e \<Rightarrow> Inl e
      | Inr train_dataloader \<Rightarrow>
          Inr (run_steps (optimizer_step E) (args_device_max_steps a) max_local_steps
                 st global_step 0 train_dataloader))"







subsection \<open>Example values\<close>

text \<open>A command line that names a checkpoint, and a checkpoint that saved one field.\<close>

definition example_cli_args :: "unit namespace" where
  "example_cli_args =
     [''checkpoint_path'' \<mapsto> PyStr ''model.bin'', ''seed'' \<mapsto> PyInt 42, ''name'' \<mapsto> PyStr ''new'']"

definition example_checkpoint :: "(unit, unit namespace) checkpoint" where
  "example_checkpoint =
     \<lparr>ck_model = (), ck_optimizer = (), ck_grad_scaler = (), ck_scheduler = (),
      ck_global_step = 1000, ck_epoch = 4, ck_args = [''seed'' \<mapsto> PyInt 7]\<rparr>"

text \<open>Ten documents of one line each, and a path template.\<close>

definition example_documents :: "document list" where
  "example_documents = [[[0]], [[1]], [[2]], [[3]], [[4]], [[5]], [[6]], [[7]], [[8]], [[9]]]"

definition example_path_format :: "int \<Rightarrow> string" where
  "example_path_format n = replicate (nat n) CHR ''x'' @ ''.pickle.gz''"

text \<open>
  A serializer that writes the length of every list before its elements, the two
  numbers of a checkpoint as its bytes, and a file system with a checkpoint in place.
\<close>

definition length_prefixed_dump :: "document list \<Rightarrow> int list" where
  "length_prefixed_dump documents =
     int (length documents) #
     concat (map (\<lambda>document. int (length document) #
                    concat (map (\<lambda>tokens. int (length tokens) # tokens) document)) documents)"

definition example_torch_save :: "(unit, unit namespace) checkpoint \<Rightarrow> int list" where
  "example_torch_save ck = [ck_global_step ck, ck_epoch ck]"

definition example_fs :: "int fs" where
  "example_fs = [''out/model.bin'' \<mapsto> [7, 7]]"



section \<open>Properties\<close>

subsection \<open>The local device index\<close>

text \<open>
  C9: for every rank and every positive number of devices per node, the local device
  index that \<^verbatim>\<open>setup_training\<close> computes is the rank modulo the number of devices; the
  expression \<open>r - d * (r div d)\<close> equals \<open>r mod d\<close>, and the index lies in \<open>[0, d)\<close>.
\<close>

theorem local_rank_is_rank_mod:
  "0 < gpus_per_node \<Longrightarrow>
     local_rank rank gpus_per_node = Inr (rank mod gpus_per_node) \<and>
     rank - gpus_per_node * (rank div gpus_per_node) = rank mod gpus_per_node \<and>
     0 \<le> rank mod gpus_per_node \<and> rank mod gpus_per_node < gpus_per_node"
  by (simp add: local_rank_def minus_mult_div_eq_mod)

theorem local_rank_is_rank_mod_witness:
  "(0::int) < 8 \<and> local_rank 13 8 = Inr 5 \<and> local_rank 13 8 = Inr (13 mod 8)"
  using local_rank_is_rank_mod [of 8 13] by simp

subsection \<open>The seed of the data loader\<close>

lemma seed_injective:
  fixes r :: int
  assumes "0 \<le> r" "r < w" "0 \<le> r'" "r' < w" "s + r + e * w = s + r' + e' * w"
  shows "r = r' \<and> e = e'"
proof -
  have eq: "r + e * w = r' + e' * w" using assms(5) by simp
  have "(r + e * w) mod w = r" using assms(1,2) by simp
  moreover have "(r' + e' * w) mod w = r'" using assms(3,4) by simp
  ultimately have rr: "r = r'" using eq by simp
  have "w \<noteq> 0" using assms by auto
  with eq rr show ?thesis by simp
qed

text \<open>
  C7: the seed that \<^verbatim>\<open>training_epoch\<close> hands to the data loader of rank \<open>r\<close> in epoch
  \<open>e\<close>, with world size \<open>w\<close> and base seed \<open>s\<close>, is \<open>s + r + e * w\<close>; it is a function of
  these four numbers only, and two different pairs of a rank below \<open>w\<close> and an epoch get
  different seeds.
\<close>

theorem dataloader_seed_per_rank_and_epoch:
  "dataloader_seed s r e w = s + r + e * w \<and>
   training_epoch E r w data st global_step e a max_local_steps =
     (case create_train_dataloader E data a (args_seed a + r + e * w) of
        Inl x \<Rightarrow> Inl x
      | Inr train_dataloader \<Rightarrow>
          Inr (run_steps (optimizer_step E) (args_device_max_steps a) max_local_steps
                 st global_step 0 train_dataloader)) \<and>
   (0 \<le> r \<and> r < w \<and> 0 \<le> r' \<and> r' < w \<and> (r \<noteq> r' \<or> e \<noteq> e') \<longrightarrow>
      dataloader_seed s r e w \<noteq> dataloader_seed s r' e' w)"
  using seed_injective [of r w r' s e e']
  by (auto simp add: dataloader_seed_def training_epoch_def)

theorem dataloader_seed_per_rank_and_epoch_witness:
  "dataloader_seed 42 3 2 8 = 61 \<and> dataloader_seed 42 3 2 8 \<noteq> dataloader_seed 42 4 2 8 \<and>
   dataloader_seed 42 3 2 8 \<noteq> dataloader_seed 42 3 1 8"
  using dataloader_seed_per_rank_and_epoch
      [where s = 42 and r = 3 and e = 2 and w = 8 and r' = 4 and e' = 2, THEN conjunct1]
    dataloader_seed_per_rank_and_epoch
      [where s = 42 and r = 3 and e = 2 and w = 8 and r' = 4 and e' = 2, THEN conjunct2, THEN conjunct2]
    dataloader_seed_per_rank_and_epoch
      [where s = 42 and r = 3 and e = 2 and w = 8 and r' = 3 and e' = 1, THEN conjunct2, THEN conjunct2]
  by simp

subsection \<open>The agreed epoch length\<close>

lemma collect_map_Inr: "collect (map (\<lambda>x. Inr (f x)) xs) = Inr (map f xs)"
  by (induction xs) simp_all

lemma all_reduce_MIN_eq:
  "xs \<noteq> [] \<Longrightarrow> all_reduce_MIN xs = replicate (length xs) (Min (set xs))"
proof (cases xs)
  case Nil
  then show ?thesis by simp
next
  case (Cons a list)
  show ?thesis unfolding Cons all_reduce_MIN.simps Min.set_eq_fold by simp
qed

lemma load_dataset_min_length_eq:
  assumes "batch_size \<noteq> 0" and "lens \<noteq> []"
  shows "load_dataset_min_length batch_size lens =
           Inr (replicate (length lens) (Min ((\<lambda>n. int n div batch_size div 16) ` set lens)))"
  using assms
  by (simp add: load_dataset_min_length_def local_min_length_def collect_map_Inr all_reduce_MIN_eq)

text \<open>
  C2, as the code has it: each rank contributes the number of full batches of its shard
  (the floor of the shard length by the batch size) divided by 16, rounded down; the
  reduction gives every rank the minimum of these contributions, which is at most the
  number of full batches of every rank. For the batch counts 120, 115 and 130 on three
  ranks every rank gets 7.
\<close>

theorem load_dataset_min_length_agreed:
  assumes "0 < batch_size" and "lens \<noteq> []"
  shows "load_dataset_min_length batch_size lens =
           Inr (replicate (length lens) (Min ((\<lambda>n. int n div batch_size div 16) ` set lens))) \<and>
         (\<forall>n \<in> set lens. Min ((\<lambda>n. int n div batch_size div 16) ` set lens) \<le> int n div batch_size) \<and>
         (map (\<lambda>n. int n div batch_size) lens = [120, 115, 130] \<longrightarrow>
            load_dataset_min_length batch_size lens = Inr [7, 7, 7])"
proof (intro conjI)
  let ?f = "\<lambda>n. int n div batch_size div 16"
  show eq: "load_dataset_min_length batch_size lens = Inr (replicate (length lens) (Min (?f ` set lens)))"
    using assms by (simp add: load_dataset_min_length_eq)
  show "\<forall>n \<in> set lens. Min (?f ` set lens) \<le> int n div batch_size"
  proof
    fix n assume n: "n \<in> set lens"
    have "Min (?f ` set lens) \<le> ?f n" using n by simp
    moreover have "0 \<le> int n div batch_size" using assms(1) by (simp add: pos_imp_zdiv_nonneg_iff)
    then have "?f n \<le> int n div batch_size" by simp
    ultimately show "Min (?f ` set lens) \<le> int n div batch_size" by linarith
  qed
  show "map (\<lambda>n. int n div batch_size) lens = [120, 115, 130] \<longrightarrow>
            load_dataset_min_length batch_size lens = Inr [7, 7, 7]"
  proof
    assume m: "map (\<lambda>n. int n div batch_size) lens = [120, 115, 130]"
    then obtain x y z where l: "lens = [x, y, z]" by auto
    with m show "load_dataset_min_length batch_size lens = Inr [7, 7, 7]"
      unfolding eq by (simp add: numeral_3_eq_3)
  qed
qed

theorem load_dataset_min_length_agreed_witness:
  "load_dataset_min_length 32 [3840, 3680, 4160] = Inr [7, 7, 7]"
  using load_dataset_min_length_agreed [of 32 "[3840, 3680, 4160]"] by simp

text \<open>
  With batch size 1 the shard lengths 120, 115 and 130 are the batch counts of the three
  ranks; the agreed length is 7 on each, not 115.
\<close>

theorem load_dataset_min_length_counterexample:
  "load_dataset_min_length 1 [120, 115, 130] = Inr [7, 7, 7] \<and>
   load_dataset_min_length 1 [120, 115, 130] \<noteq> Inr [115, 115, 115]"
  by (simp add: load_dataset_min_length_def local_min_length_def numeral_3_eq_3)

subsection \<open>Resuming from a checkpoint\<close>

text \<open>
  C5: when the command line names a checkpoint, the main program starts at the epoch
  after the saved one and at the saved global step, and every field of the resolved
  configuration has the value saved in the checkpoint when the checkpoint has the field,
  and the freshly parsed value otherwise.
\<close>

theorem main_init_resumes_from_checkpoint:
  assumes "args ''checkpoint_path'' = Some path" and "path \<noteq> PyNone"
  shows "main_init args torch_load SLURM_PROCID generated_id =
           Inr (Some (torch_load path), ck_epoch (torch_load path) + 1,
                ck_global_step (torch_load path), args ++ ck_args (torch_load path)) \<and>
         (\<forall>field. (args ++ ck_args (torch_load path)) field =
            (case ck_args (torch_load path) field of
               Some v \<Rightarrow> Some v
             | None \<Rightarrow> args field))"
  using assms by (cases path) (simp_all add: main_init_def map_add_def Let_def)

theorem main_init_resumes_from_checkpoint_witness:
  "main_init example_cli_args (\<lambda>path. example_checkpoint) 0 (PyStr ''id'') =
     Inr (Some example_checkpoint, 5, 1000, example_cli_args ++ ck_args example_checkpoint) \<and>
   (example_cli_args ++ ck_args example_checkpoint) ''seed'' = Some (PyInt 7) \<and>
   (example_cli_args ++ ck_args example_checkpoint) ''name'' = Some (PyStr ''new'')"
  using main_init_resumes_from_checkpoint
          [of example_cli_args "PyStr ''model.bin''" "\<lambda>path. example_checkpoint" 0 "PyStr ''id''"]
  by (simp add: example_cli_args_def example_checkpoint_def)

subsection \<open>The round-robin shards\<close>

lemma count_eq:
  assumes "i < 8"
  shows "((n::nat) + 7 - i) div 8 = n div 8 + (if i < n mod 8 then 1 else 0)"
proof -
  define q r where "q = n div 8" and "r = n mod 8"
  have n: "n = 8 * q + r" and r: "r < 8" by (simp_all add: q_def r_def)
  have "(n + 7 - i) div 8 = q + (if i < r then 1 else 0)"
  proof (rule div_nat_eqI)
    show "8 * (q + (if i < r then 1 else 0)) \<le> n + 7 - i" using n r assms by (cases "i < r") auto
    show "n + 7 - i < 8 * Suc (q + (if i < r then 1 else 0))" using n r assms by (cases "i < r") auto
  qed
  then show ?thesis by (simp add: q_def r_def)
qed

lemma slice_count:
  assumes "i < 8"
  shows "(Suc n + 7 - i) div 8 = (n + 7 - i) div 8 + (if n mod 8 = i then 1 else 0)"
proof -
  have A: "(Suc n + 7 - i) div 8 = Suc n div 8 + (if i < Suc n mod 8 then 1 else 0)"
    using assms by (rule count_eq)
  have B: "(n + 7 - i) div 8 = n div 8 + (if i < n mod 8 then 1 else 0)"
    using assms by (rule count_eq)
  have "n mod 8 < 8" by simp
  then show ?thesis unfolding A B using assms by (auto simp add: div_Suc mod_Suc)
qed

lemma slice_count_hit:
  "i < 8 \<Longrightarrow> n mod 8 = i \<Longrightarrow> (Suc n + 7 - i) div 8 = Suc ((n + 7 - i) div 8)"
  using slice_count [of i n] by simp

lemma slice_count_miss:
  "i < 8 \<Longrightarrow> n mod 8 \<noteq> i \<Longrightarrow> (Suc n + 7 - i) div 8 = (n + 7 - i) div 8"
  using slice_count [of i n] by simp

lemma slice_last_position: "n mod 8 = i \<Longrightarrow> i + (n + 7 - i) div 8 * 8 = (n::nat)"
  using mod_mult_div_eq [of n 8] by (simp add: count_eq mult.commute)

lemma slice_index_bound:
  assumes "k < (n::nat)"
  shows "k div 8 < (n + 7 - k mod 8) div 8"
proof -
  define kq kr nq nr where "kq = k div 8" and "kr = k mod 8" and "nq = n div 8" and "nr = n mod 8"
  have k: "k = 8 * kq + kr" "kr < 8" and n: "n = 8 * nq + nr" "nr < 8"
    by (simp_all add: kq_def kr_def nq_def nr_def)
  have "kq < nq + (if kr < nr then 1 else 0)" using k n assms by (simp split: if_splits)
  then show ?thesis by (simp add: count_eq kq_def kr_def nq_def nr_def)
qed

lemma slice_lengths_sum:
  "(\<Sum>i\<leftarrow>[0..<8]. (n + 7 - i) div 8) = (n::nat)"
proof -
  define q r where "q = n div 8" and "r = n mod 8"
  have n: "n = 8 * q + r" and r: "r < 8" by (simp_all add: q_def r_def)
  have u: "[0..<8] = [0,1,2,3,4,5,6,7::nat]" by (simp add: upt_rec)
  have "(\<Sum>i\<leftarrow>[0..<8]. q + (if i < r then 1 else 0)) = 8 * q + r"
    unfolding u using r by (simp split: if_splits)
  moreover have "(\<Sum>i\<leftarrow>[0..<8]. (n + 7 - i) div 8) = (\<Sum>i\<leftarrow>[0..<8]. q + (if i < r then 1 else 0))"
    by (rule arg_cong [where f = sum_list], rule map_cong) (simp_all add: count_eq q_def r_def)
  ultimately show ?thesis using n by simp
qed

lemma filter_mod_upt:
  "i < 8 \<Longrightarrow> filter (\<lambda>k. k mod 8 = i) [0..<n] = map (\<lambda>j. i + j * 8) [0..<(n + 7 - i) div 8]"
proof (induction n)
  case 0
  then show ?case by simp
next
  case (Suc n)
  let ?c = "(n + 7 - i) div 8"
  show ?case
  proof (cases "n mod 8 = i")
    case True
    have c: "(Suc n + 7 - i) div 8 = Suc ?c"
      using Suc.prems True by (rule slice_count_hit)
    have l: "i + ?c * 8 = n" using True by (rule slice_last_position)
    have "filter (\<lambda>k. k mod 8 = i) [0..<Suc n] = filter (\<lambda>k. k mod 8 = i) [0..<n] @ [n]"
      using True by simp
    also have "\<dots> = map (\<lambda>j. i + j * 8) [0..<?c] @ [n]"
      using Suc.IH [OF Suc.prems] by (simp only:)
    also have "\<dots> = map (\<lambda>j. i + j * 8) [0..<Suc ?c]"
      using l by (simp only: upt_Suc map_append list.map le0 if_True)
    finally show ?thesis by (simp only: c)
  next
    case False
    have c: "(Suc n + 7 - i) div 8 = ?c"
      using Suc.prems False by (rule slice_count_miss)
    have "filter (\<lambda>k. k mod 8 = i) [0..<Suc n] = filter (\<lambda>k. k mod 8 = i) [0..<n]"
      using False by simp
    also have "\<dots> = map (\<lambda>j. i + j * 8) [0..<?c]"
      using Suc.IH [OF Suc.prems] by (simp only:)
    finally show ?thesis by (simp only: c)
  qed
qed

lemma py_range_8: "py_range i n 8 = map (\<lambda>j. i + j * 8) [0..<(n + 7 - i) div 8]"
proof -
  have "n + 8 - 1 - i = n + 7 - i" by simp
  then show ?thesis unfolding py_range_def by (simp only:)
qed

lemma slice_from_positions:
  "i < 8 \<Longrightarrow> slice_from xs i 8 = map (\<lambda>k. xs ! k) (filter (\<lambda>k. k mod 8 = i) [0..<length xs])"
  by (simp only: slice_from_def py_range_8 filter_mod_upt)

lemma slice_from_length: "length (slice_from xs i 8) = (length xs + 7 - i) div 8"
  by (simp only: slice_from_def py_range_8 length_map length_upt diff_zero)

lemma slice_from_nth:
  "j < (length xs + 7 - i) div 8 \<Longrightarrow> slice_from xs i 8 ! j = xs ! (i + j * 8)"
  by (simp only: slice_from_def py_range_8 map_map) simp

lemma Processor_save_nth:
  "i < 8 \<Longrightarrow> Processor_save fmt RANK D ! i = (fmt (RANK * 8 + int i), slice_from D i 8)"
  by (simp add: Processor_save_def)

text \<open>
  C1: \<^verbatim>\<open>save\<close> writes eight artifacts; artifact \<open>i\<close> is named from \<open>RANK * 8 + i\<close> and
  holds exactly the documents at the positions of \<open>D\<close> that are congruent to \<open>i\<close> modulo 8,
  in their order. Reading position \<open>k\<close> from artifact \<open>k mod 8\<close> at index \<open>k div 8\<close> gives
  \<open>D\<close> back, and the artifacts together hold as many documents as \<open>D\<close>, so no position
  is in two artifacts.
\<close>

theorem Processor_save_round_robin:
  "map fst (Processor_save fmt RANK D) = map (\<lambda>i. fmt (RANK * 8 + int i)) [0..<8] \<and>
   (\<forall>i<8. snd (Processor_save fmt RANK D ! i) =
            map (\<lambda>k. D ! k) (filter (\<lambda>k. k mod 8 = i) [0..<length D])) \<and>
   D = map (\<lambda>k. snd (Processor_save fmt RANK D ! (k mod 8)) ! (k div 8)) [0..<length D] \<and>
   (\<Sum>w\<leftarrow>Processor_save fmt RANK D. length (snd w)) = length D"
proof (intro conjI)
  show "map fst (Processor_save fmt RANK D) = map (\<lambda>i. fmt (RANK * 8 + int i)) [0..<8]"
    by (simp add: Processor_save_def)
  show "\<forall>i<8. snd (Processor_save fmt RANK D ! i) =
            map (\<lambda>k. D ! k) (filter (\<lambda>k. k mod 8 = i) [0..<length D])"
    by (simp add: Processor_save_nth slice_from_positions)
  show "D = map (\<lambda>k. snd (Processor_save fmt RANK D ! (k mod 8)) ! (k div 8)) [0..<length D]"
  proof (rule nth_equalityI)
    show "length D = length (map (\<lambda>k. snd (Processor_save fmt RANK D ! (k mod 8)) ! (k div 8)) [0..<length D])"
      by simp
  next
    fix k assume k: "k < length D"
    have b: "k div 8 < (length D + 7 - k mod 8) div 8" using k by (rule slice_index_bound)
    have "snd (Processor_save fmt RANK D ! (k mod 8)) ! (k div 8) = slice_from D (k mod 8) 8 ! (k div 8)"
      by (simp add: Processor_save_nth)
    also have "\<dots> = D ! (k mod 8 + k div 8 * 8)"
      using b by (rule slice_from_nth)
    finally have "snd (Processor_save fmt RANK D ! (k mod 8)) ! (k div 8) = D ! (k mod 8 + k div 8 * 8)" .
    then show "D ! k = map (\<lambda>k. snd (Processor_save fmt RANK D ! (k mod 8)) ! (k div 8)) [0..<length D] ! k"
      using k by simp
  qed
  show "(\<Sum>w\<leftarrow>Processor_save fmt RANK D. length (snd w)) = length D"
  proof -
    have "(\<Sum>w\<leftarrow>Processor_save fmt RANK D. length (snd w)) =
            (\<Sum>i\<leftarrow>[0..<8]. length (slice_from D i 8))"
      by (simp add: Processor_save_def comp_def)
    also have "\<dots> = (\<Sum>i\<leftarrow>[0..<8]. (length D + 7 - i) div 8)"
      by (simp only: slice_from_length)
    also have "\<dots> = length D" by (rule slice_lengths_sum)
    finally show ?thesis .
  qed
qed

theorem Processor_save_round_robin_witness:
  "fst (Processor_save example_path_format 2 example_documents ! 1) = example_path_format 17 \<and>
   snd (Processor_save example_path_format 2 example_documents ! 1) = [[[1]], [[9]]] \<and>
   snd (Processor_save example_path_format 2 example_documents ! (9 mod 8)) ! (9 div 8) =
     example_documents ! 9 \<and>
   (\<Sum>w\<leftarrow>Processor_save example_path_format 2 example_documents. length (snd w)) = 10"
proof -
  note t = Processor_save_round_robin [of example_path_format 2 example_documents]
  have len: "length example_documents = 10" by (simp add: example_documents_def)
  have u: "[0..<10] = [0,1,2,3,4,5,6,7,8,9::nat]" by (simp add: upt_rec)
  have u8: "[0..<8] = [0,1,2,3,4,5,6,7::nat]" by (simp add: upt_rec)
  have "map fst (Processor_save example_path_format 2 example_documents) ! 1 =
          map (\<lambda>i. example_path_format (2 * 8 + int i)) [0..<8] ! 1"
    using t [THEN conjunct1] by (simp only:)
  then have a: "fst (Processor_save example_path_format 2 example_documents ! 1) = example_path_format 17"
    by (simp add: Processor_save_def u8)
  have b: "snd (Processor_save example_path_format 2 example_documents ! 1) = [[[1]], [[9]]]"
    using t [THEN conjunct2, THEN conjunct1, rule_format, of 1]
    by (simp add: example_documents_def u)
  have "example_documents ! 9 =
          map (\<lambda>k. snd (Processor_save example_path_format 2 example_documents ! (k mod 8)) ! (k div 8))
            [0..<length example_documents] ! 9"
    using t [THEN conjunct2, THEN conjunct2, THEN conjunct1] by (rule arg_cong)
  then have c: "snd (Processor_save example_path_format 2 example_documents ! (9 mod 8)) ! (9 div 8) =
     example_documents ! 9"
    by (simp add: len)
  have d: "(\<Sum>w\<leftarrow>Processor_save example_path_format 2 example_documents. length (snd w)) = 10"
    using t [THEN conjunct2, THEN conjunct2, THEN conjunct2] len by (simp only:)
  from a b c d show ?thesis by (intro conjI)
qed

subsection \<open>Ingest: documents between blank lines\<close>

lemma split_at_not_Nil: "split_at P xs \<noteq> []"
  by (induction xs) simp_all

lemma split_at_append:
  "split_at P (xs @ ys) =
     butlast (split_at P xs) @ [last (split_at P xs) @ hd (split_at P ys)] @ tl (split_at P ys)"
proof (induction xs)
  case Nil
  then show ?case using split_at_not_Nil [of P ys] by simp
next
  case (Cons x xs)
  obtain g gs where s: "split_at P xs = g # gs"
    using split_at_not_Nil [of P xs] by (cases "split_at P xs") auto
  show ?case using Cons s by (cases "gs = []") simp_all
qed

lemma split_at_no_delimiter: "\<forall>x \<in> set xs. \<not> P x \<Longrightarrow> split_at P xs = [xs]"
  by (induction xs) simp_all

lemma split_at_last_Nil:
  assumes "xs = [] \<or> P (last xs)"
  shows "last (split_at P xs) = []"
proof (cases xs rule: rev_cases)
  case Nil
  then show ?thesis by simp
next
  case (snoc ys x)
  then have "P x" using assms by simp
  then have "split_at P [x] = [[], []]" by simp
  then show ?thesis unfolding snoc split_at_append by simp
qed

lemma split_at_hd_Nil: "xs = [] \<or> P (hd xs) \<Longrightarrow> hd (split_at P xs) = []"
  by (cases xs) auto

lemma document_of_Nil: "document_of encode [] = []"
  by (simp add: document_of_def)

lemma document_of_append:
  "document_of encode (xs @ ys) = document_of encode xs @ document_of encode ys"
  by (simp add: document_of_def)

lemma line_step_blank:
  "strip raw = [] \<Longrightarrow> line_step encode (docs, t) raw = Inr (docs @ [[]], t)"
  by (simp add: line_step_def)

lemma line_step_line:
  "strip raw \<noteq> [] \<Longrightarrow> docs \<noteq> [] \<Longrightarrow>
     line_step encode (docs, t) raw =
       Inr (butlast docs @ [last docs @ document_of encode [strip raw]],
            t + int (length (encode (strip raw) False False)))"
  by (cases docs) (simp_all add: line_step_def append_to_last_def document_of_def Let_def)

lemma for_lines_groups:
  "docs \<noteq> [] \<Longrightarrow>
   map (document_of encode) (split_at (\<lambda>line. line = []) (map strip lines)) = g # gs \<Longrightarrow>
     for_lines encode (docs, t) lines =
       Inr (butlast docs @ [last docs @ g] @ gs, t + token_total encode lines)"
proof (induction lines arbitrary: docs t g gs)
  case Nil
  then show ?case by (simp add: document_of_Nil token_total_def)
next
  case (Cons raw rest)
  obtain s ss where S: "split_at (\<lambda>line. line = []) (map strip rest) = s # ss"
    using split_at_not_Nil [of "\<lambda>line. line = []" "map strip rest"]
    by (cases "split_at (\<lambda>line. line = []) (map strip rest)") auto
  have G: "map (document_of encode) (split_at (\<lambda>line. line = []) (map strip rest)) =
             document_of encode s # map (document_of encode) ss"
    by (simp add: S)
  show ?case
  proof (cases "strip raw = []")
    case True
    have g: "g = []" and gs: "gs = document_of encode s # map (document_of encode) ss"
      using Cons.prems(2) True S by (simp_all add: document_of_Nil)
    have "for_lines encode (docs, t) (raw # rest) = for_lines encode (docs @ [[]], t) rest"
      using True by (simp add: line_step_blank)
    also have "\<dots> = Inr (butlast (docs @ [[]]) @
              [last (docs @ [[]]) @ document_of encode s] @ map (document_of encode) ss,
            t + token_total encode rest)"
      using G by (intro Cons.IH) simp_all
    finally show ?thesis using True Cons.prems(1) g gs
      by (simp add: token_total_def)
  next
    case False
    let ?d = "butlast docs @ [last docs @ document_of encode [strip raw]]"
    let ?t = "t + int (length (encode (strip raw) False False))"
    have g: "g = document_of encode [strip raw] @ document_of encode s"
      and gs: "gs = map (document_of encode) ss"
      using Cons.prems(2) False S document_of_append [of encode "[strip raw]" s] by simp_all
    have "for_lines encode (docs, t) (raw # rest) = for_lines encode (?d, ?t) rest"
      using False Cons.prems(1) by (simp add: line_step_line)
    also have "\<dots> = Inr (butlast ?d @
              [last ?d @ document_of encode s] @ map (document_of encode) ss,
            ?t + token_total encode rest)"
      using G by (intro Cons.IH) simp_all
    finally show ?thesis using False g gs
      by (simp add: token_total_def)
  qed
qed

lemma for_lines_append:
  "for_lines encode st (xs @ ys) =
     (case for_lines encode st xs of Inl e \<Rightarrow> Inl e | Inr st' \<Rightarrow> for_lines encode st' ys)"
  by (induction xs arbitrary: st) (simp_all split: sum.splits)

lemma load_and_tokenize_groups:
  "load_and_tokenize encode ncc c4 =
     Inr (documents_of encode (ncc @ c4), token_total encode (ncc @ c4))"
proof -
  obtain g gs where G:
    "map (document_of encode) (split_at (\<lambda>line. line = []) (map strip (ncc @ c4))) = g # gs"
    using split_at_not_Nil [of "\<lambda>line. line = []" "map strip (ncc @ c4)"]
    by (cases "split_at (\<lambda>line. line = []) (map strip (ncc @ c4))") auto
  have "for_paths encode ([[]], 0) [ncc, c4] = for_lines encode ([[]], 0) (ncc @ c4)"
    by (simp add: for_lines_append split: sum.splits)
  also have "\<dots> = Inr (butlast [[]] @ [last [[]] @ g] @ gs, 0 + token_total encode (ncc @ c4))"
    using G by (intro for_lines_groups) simp_all
  finally have "for_paths encode ([[]], 0) [ncc, c4] = Inr (g # gs, token_total encode (ncc @ c4))"
    by simp
  then show ?thesis unfolding load_and_tokenize_def documents_of_def G by simp
qed

lemma documents_of_span:
  assumes "a = [] \<or> blank (last a)" and "\<forall>raw \<in> set t. \<not> blank raw"
    and "\<forall>raw \<in> set h. \<not> blank raw" and "b = [] \<or> blank (hd b)"
  shows "documents_of encode ((a @ t) @ (h @ b)) =
           documents_of encode a @
           filter (\<lambda>document. document \<noteq> []) [document_of encode (map strip (t @ h))] @
           documents_of encode b"
proof -
  let ?P = "\<lambda>line::pystr. line = []"
  let ?A = "split_at ?P (map strip a)" and ?B = "split_at ?P (map strip b)"
  have A: "?A = butlast ?A @ [[]]"
  proof -
    have "map strip a = [] \<or> ?P (last (map strip a))"
      using assms(1) by (cases "a = []") (simp_all add: blank_def last_map)
    then have "last ?A = []" by (rule split_at_last_Nil)
    then show ?thesis using append_butlast_last_id [OF split_at_not_Nil, of ?P "map strip a"] by simp
  qed
  have B: "?B = [] # tl ?B"
  proof -
    have "map strip b = [] \<or> ?P (hd (map strip b))"
      using assms(4) by (cases b) (simp_all add: blank_def)
    then have "hd ?B = []" by (rule split_at_hd_Nil)
    then show ?thesis using hd_Cons_tl [OF split_at_not_Nil, of ?P "map strip b"] by simp
  qed
  have M: "split_at ?P (map strip (t @ h)) = [map strip (t @ h)]"
    using assms(2,3) by (intro split_at_no_delimiter) (auto simp add: blank_def)
  have "split_at ?P (map strip ((a @ t) @ (h @ b))) =
          split_at ?P (map strip a @ (map strip (t @ h) @ map strip b))"
    by simp
  also have "\<dots> = butlast ?A @ [last ?A @ hd (split_at ?P (map strip (t @ h) @ map strip b))] @
                    tl (split_at ?P (map strip (t @ h) @ map strip b))"
    by (rule split_at_append)
  also have "split_at ?P (map strip (t @ h) @ map strip b) =
               butlast [map strip (t @ h)] @ [last [map strip (t @ h)] @ hd ?B] @ tl ?B"
    unfolding split_at_append [of ?P "map strip (t @ h)" "map strip b"] M by (rule refl)
  finally have "split_at ?P (map strip ((a @ t) @ (h @ b))) =
                  butlast ?A @ [last ?A @ (map strip (t @ h) @ hd ?B)] @ tl ?B"
    by simp
  moreover have "last ?A = []" using A by (metis last_snoc)
  moreover have "hd ?B = []" using B by (metis list.sel(1))
  ultimately have S: "split_at ?P (map strip ((a @ t) @ (h @ b))) =
                  butlast ?A @ [map strip (t @ h)] @ tl ?B"
    by simp
  have "documents_of encode a =
          filter (\<lambda>document. document \<noteq> []) (map (document_of encode) (butlast ?A @ [[]]))"
    unfolding documents_of_def using A by simp
  then have da: "documents_of encode a =
          filter (\<lambda>document. document \<noteq> []) (map (document_of encode) (butlast ?A))"
    by (simp add: document_of_Nil)
  have "documents_of encode b =
          filter (\<lambda>document. document \<noteq> []) (map (document_of encode) ([] # tl ?B))"
    unfolding documents_of_def using B by simp
  then have db: "documents_of encode b =
          filter (\<lambda>document. document \<noteq> []) (map (document_of encode) (tl ?B))"
    by (simp add: document_of_Nil)
  show ?thesis unfolding da db unfolding documents_of_def S by simp
qed

text \<open>
  C3: ingest starts with one empty document, closes the current document at every line
  that is empty when stripped, tokenizes every other line with both flags off and
  appends the token array, when it is not empty, to the current document, and drops the
  documents without lines at the end: the documents are those of the groups of stripped
  lines between the empty ones. The five lines of the scenario give two documents, and
  nothing for the group after the last empty line.
\<close>

theorem load_and_tokenize_documents:
  "load_and_tokenize encode ncc c4 =
     Inr (filter (\<lambda>document. document \<noteq> [])
            (map (\<lambda>group. filter (\<lambda>tokens. tokens \<noteq> []) (map (\<lambda>line. encode line False False) group))
               (split_at (\<lambda>line. line = []) (map strip (ncc @ c4)))),
          token_total encode (ncc @ c4)) \<and>
   load_and_tokenize (word_tokenizer tok) [py ''hello world'', [], py ''foo'', py ''bar'', []] [] =
     Inr ([[[tok (py ''hello''), tok (py ''world'')]], [[tok (py ''foo'')], [tok (py ''bar'')]]], 4) \<and>
   load_and_tokenize (word_tokenizer tok) [] [py ''hello world'', [], py ''foo'', py ''bar'', []] =
     Inr ([[[tok (py ''hello''), tok (py ''world'')]], [[tok (py ''foo'')], [tok (py ''bar'')]]], 4)"
proof (intro conjI)
  have d: "document_of encode = (\<lambda>group. filter (\<lambda>tokens. tokens \<noteq> []) (map (\<lambda>line. encode line False False) group))"
    by (simp add: document_of_def fun_eq_iff)
  show "load_and_tokenize encode ncc c4 =
     Inr (filter (\<lambda>document. document \<noteq> [])
            (map (\<lambda>group. filter (\<lambda>tokens. tokens \<noteq> []) (map (\<lambda>line. encode line False False) group))
               (split_at (\<lambda>line. line = []) (map strip (ncc @ c4)))),
          token_total encode (ncc @ c4))"
    unfolding load_and_tokenize_groups documents_of_def d by (rule refl)
  have s: "documents_of (word_tokenizer tok) [py ''hello world'', [], py ''foo'', py ''bar'', []] =
             [[[tok (py ''hello''), tok (py ''world'')]], [[tok (py ''foo'')], [tok (py ''bar'')]]]"
    by (simp add: documents_of_def document_of_def word_tokenizer_def py_def strip_def isspace_def)
  have t: "token_total (word_tokenizer tok) [py ''hello world'', [], py ''foo'', py ''bar'', []] = 4"
    by (simp add: token_total_def word_tokenizer_def py_def strip_def isspace_def)
  show "load_and_tokenize (word_tokenizer tok) [py ''hello world'', [], py ''foo'', py ''bar'', []] [] =
     Inr ([[[tok (py ''hello''), tok (py ''world'')]], [[tok (py ''foo'')], [tok (py ''bar'')]]], 4)"
    unfolding load_and_tokenize_groups append_Nil2 s t by (rule refl)
  show "load_and_tokenize (word_tokenizer tok) [] [py ''hello world'', [], py ''foo'', py ''bar'', []] =
     Inr ([[[tok (py ''hello''), tok (py ''world'')]], [[tok (py ''foo'')], [tok (py ''bar'')]]], 4)"
    unfolding load_and_tokenize_groups append_Nil s t by (rule refl)
qed

theorem load_and_tokenize_documents_witness:
  "load_and_tokenize (word_tokenizer (\<lambda>w. int (length w)))
     [py ''hello world'', [], py ''foo'', py ''bar'', []] [] =
     Inr ([[[5, 5]], [[3], [3]]], 4)"
  using load_and_tokenize_documents [where tok = "\<lambda>w. int (length w)", THEN conjunct2, THEN conjunct1]
  by (simp add: py_def)

text \<open>
  C10: the current document is carried from the first file into the second. When the
  first file ends with the non-blank lines \<open>t\<close> and the second starts with the non-blank
  lines \<open>h\<close>, the token arrays of \<open>t\<close> and of \<open>h\<close> are in one document, between the
  documents of the rest of the first file and those of the rest of the second; the
  result is the one of a single file that holds the lines of both.
\<close>

theorem load_and_tokenize_spans_files:
  assumes "a = [] \<or> blank (last a)" and "\<forall>raw \<in> set t. \<not> blank raw"
    and "\<forall>raw \<in> set h. \<not> blank raw" and "b = [] \<or> blank (hd b)"
  shows "load_and_tokenize encode (a @ t) (h @ b) =
           Inr (documents_of encode a @
                filter (\<lambda>document. document \<noteq> [])
                  [document_of encode (map strip t) @ document_of encode (map strip h)] @
                documents_of encode b,
                token_total encode (a @ t @ h @ b)) \<and>
         load_and_tokenize encode (a @ t) (h @ b) = load_and_tokenize encode (a @ t @ h @ b) []"
proof
  show "load_and_tokenize encode (a @ t) (h @ b) =
           Inr (documents_of encode a @
                filter (\<lambda>document. document \<noteq> [])
                  [document_of encode (map strip t) @ document_of encode (map strip h)] @
                documents_of encode b,
                token_total encode (a @ t @ h @ b))"
    unfolding load_and_tokenize_groups documents_of_span [OF assms]
    by (simp add: document_of_append)
  show "load_and_tokenize encode (a @ t) (h @ b) = load_and_tokenize encode (a @ t @ h @ b) []"
    unfolding load_and_tokenize_groups by simp
qed

theorem load_and_tokenize_spans_files_witness:
  "load_and_tokenize (word_tokenizer (\<lambda>w. int (length w)))
     [py ''x'', [], py ''foo''] [py ''bar baz'', [], py ''y''] =
     Inr ([[[1]], [[3], [3, 3]], [[1]]], 5)"
  using load_and_tokenize_spans_files
    [of "[py ''x'', []]" "[py ''foo'']" "[py ''bar baz'']" "[[], py ''y'']"
        "word_tokenizer (\<lambda>w. int (length w))"]
  by (simp add: blank_def documents_of_def document_of_def token_total_def word_tokenizer_def
        py_def strip_def isspace_def)

subsection \<open>The checkpoint file\<close>

lemma tmp_path_differs: "checkpoint_path_of output_dir @ ''_tmp'' \<noteq> checkpoint_path_of output_dir"
  by simp

lemma write_states_last: "last (write_states path bytes fs) = fs(path \<mapsto> bytes)"
  by (simp add: write_states_def)

lemma write_states_not_Nil: "write_states path bytes fs \<noteq> []"
  by (simp add: write_states_def)

lemma write_states_other:
  "s \<in> set (write_states path bytes fs) \<Longrightarrow> p \<noteq> path \<Longrightarrow> s p = fs p"
  by (auto simp add: write_states_def)

lemma write_states_prefix:
  "s \<in> set (write_states path bytes fs) \<Longrightarrow> \<exists>k. s path = Some (take k bytes)"
  by (auto simp add: write_states_def simp del: upt_Suc)

text \<open>
  C4: when a checkpoint file exists at the fixed path, \<^verbatim>\<open>save\<close> on rank 0 first renames
  it to the backup name and only then writes the new checkpoint at the path. In every
  state from the rename on, also in the middle of the write, the backup holds the
  previous checkpoint unchanged, so a run that stops there can resume from it. The call
  that ends leaves the new checkpoint at the path, and on every other rank the call
  writes nothing.
\<close>

theorem save_keeps_previous_checkpoint:
  assumes "fs (checkpoint_path_of output_dir) = Some previous"
  shows "(\<forall>s \<in> set (tl (save_states torch_save 0 output_dir ck fs)).
            s (checkpoint_path_of output_dir @ ''_tmp'') = Some previous) \<and>
         (save_states torch_save 0 output_dir ck fs ! 1) (checkpoint_path_of output_dir) = None \<and>
         (\<forall>s \<in> set (drop 2 (save_states torch_save 0 output_dir ck fs)).
            \<exists>k. s (checkpoint_path_of output_dir) = Some (take k (torch_save ck))) \<and>
         fst (save torch_save 0 output_dir ck fs) (checkpoint_path_of output_dir) = Some (torch_save ck) \<and>
         (rank \<noteq> 0 \<longrightarrow> save_states torch_save rank output_dir ck fs = [fs])"
proof -
  let ?p = "checkpoint_path_of output_dir"
  let ?fs1 = "os_rename ?p (?p @ ''_tmp'') fs"
  have st: "save_states torch_save 0 output_dir ck fs = fs # ?fs1 # write_states ?p (torch_save ck) ?fs1"
    using assms by (simp add: save_states_def is_main_process_def Let_def)
  have t1: "?fs1 (?p @ ''_tmp'') = Some previous" and p1: "?fs1 ?p = None"
    using assms by (simp_all add: os_rename_def)
  have a: "\<forall>s \<in> set (tl (save_states torch_save 0 output_dir ck fs)). s (?p @ ''_tmp'') = Some previous"
  proof
    fix s assume "s \<in> set (tl (save_states torch_save 0 output_dir ck fs))"
    then have "s = ?fs1 \<or> s \<in> set (write_states ?p (torch_save ck) ?fs1)"
      unfolding st by simp
    then show "s (?p @ ''_tmp'') = Some previous"
      using t1 write_states_other [of s ?p "torch_save ck" ?fs1 "?p @ ''_tmp''"] tmp_path_differs
      by auto
  qed
  have b: "(save_states torch_save 0 output_dir ck fs ! 1) ?p = None"
    unfolding st using p1 by simp
  have c: "\<forall>s \<in> set (drop 2 (save_states torch_save 0 output_dir ck fs)).
            \<exists>k. s ?p = Some (take k (torch_save ck))"
    unfolding st by (simp add: write_states_prefix)
  have d: "fst (save torch_save 0 output_dir ck fs) ?p = Some (torch_save ck)"
    unfolding save_def st using write_states_not_Nil [of ?p "torch_save ck" ?fs1]
    by (simp add: write_states_last)
  have e: "rank \<noteq> 0 \<longrightarrow> save_states torch_save rank output_dir ck fs = [fs]"
    by (simp add: save_states_def is_main_process_def)
  from a b c d e show ?thesis by (intro conjI)
qed

theorem save_keeps_previous_checkpoint_witness:
  "(save_states example_torch_save 0 ''out'' example_checkpoint example_fs ! 3) ''out/model.bin_tmp'' = Some [7, 7] \<and>
   (save_states example_torch_save 0 ''out'' example_checkpoint example_fs ! 3) ''out/model.bin'' = Some [1000] \<and>
   fst (save example_torch_save 0 ''out'' example_checkpoint example_fs) ''out/model.bin'' = Some [1000, 4] \<and>
   save_states example_torch_save 1 ''out'' example_checkpoint example_fs = [example_fs]"
proof -
  let ?fs1 = "os_rename ''out/model.bin'' ''out/model.bin_tmp'' example_fs"
  have p: "checkpoint_path_of ''out'' = ''out/model.bin''" by (simp add: checkpoint_path_of_def)
  have f: "example_fs (checkpoint_path_of ''out'') = Some [7, 7]" by (simp add: p example_fs_def)
  note t = save_keeps_previous_checkpoint
    [of example_fs "''out''" "[7, 7]" example_torch_save example_checkpoint 1, OF f]
  have L: "save_states example_torch_save 0 ''out'' example_checkpoint example_fs =
      [example_fs, ?fs1, ?fs1(''out/model.bin'' \<mapsto> []), ?fs1(''out/model.bin'' \<mapsto> [1000]),
       ?fs1(''out/model.bin'' \<mapsto> [1000, 4])]"
    using f unfolding p
    by (simp add: save_states_def is_main_process_def write_states_def Let_def p
          example_torch_save_def example_checkpoint_def)
  have st: "save_states example_torch_save 0 ''out'' example_checkpoint example_fs ! 3 \<in>
          set (tl (save_states example_torch_save 0 ''out'' example_checkpoint example_fs))"
    unfolding L by (simp add: numeral_3_eq_3)
  have a: "(save_states example_torch_save 0 ''out'' example_checkpoint example_fs ! 3) ''out/model.bin_tmp'' = Some [7, 7]"
    using t [THEN conjunct1, rule_format, OF st] by (simp add: p)
  have b: "(save_states example_torch_save 0 ''out'' example_checkpoint example_fs ! 3) ''out/model.bin'' = Some [1000]"
    unfolding L by (simp add: numeral_3_eq_3)
  have c: "fst (save example_torch_save 0 ''out'' example_checkpoint example_fs) ''out/model.bin'' = Some [1000, 4]"
    using t [THEN conjunct2, THEN conjunct2, THEN conjunct2, THEN conjunct1]
    by (simp add: p example_torch_save_def example_checkpoint_def)
  have d: "save_states example_torch_save 1 ''out'' example_checkpoint example_fs = [example_fs]"
    using t [THEN conjunct2, THEN conjunct2, THEN conjunct2, THEN conjunct2] by simp
  from a b c d show ?thesis by (intro conjI)
qed

subsection \<open>The shard files during the write\<close>

lemma dump_states_content:
  "s \<in> set (dump_states dump ws fs) \<Longrightarrow>
     s p = fs p \<or> (\<exists>obj k. (p, obj) \<in> set ws \<and> s p = Some (take k (dump obj)))"
proof (induction ws arbitrary: fs)
  case Nil
  then show ?case by simp
next
  case (Cons w rest)
  obtain path obj where w: "w = (path, obj)" by (cases w)
  from Cons.prems have "s \<in> set (write_states path (dump obj) fs) \<or>
      s \<in> set (dump_states dump rest (fs(path \<mapsto> dump obj)))"
    by (simp add: w)
  then show ?case
  proof
    assume h: "s \<in> set (write_states path (dump obj) fs)"
    show ?thesis
    proof (cases "p = path")
      case True
      then show ?thesis using write_states_prefix [OF h] w by auto
    next
      case False
      then show ?thesis using write_states_other [OF h] by simp
    qed
  next
    assume "s \<in> set (dump_states dump rest (fs(path \<mapsto> dump obj)))"
    then have "s p = (fs(path \<mapsto> dump obj)) p \<or>
        (\<exists>obj k. (p, obj) \<in> set rest \<and> s p = Some (take k (dump obj)))"
      by (rule Cons.IH)
    then show ?thesis
    proof
      assume e: "s p = (fs(path \<mapsto> dump obj)) p"
      show ?thesis
      proof (cases "p = path")
        case True
        then have "(p, obj) \<in> set (w # rest) \<and> s p = Some (take (length (dump obj)) (dump obj))"
          using e w by simp
        then show ?thesis by blast
      next
        case False
        then show ?thesis using e by simp
      qed
    next
      assume "\<exists>obj k. (p, obj) \<in> set rest \<and> s p = Some (take k (dump obj))"
      then show ?thesis by auto
    qed
  qed
qed

lemma dump_states_opened:
  "(p, obj) \<in> set ws \<Longrightarrow> \<exists>s \<in> set (dump_states dump ws fs). s p = Some []"
proof (induction ws arbitrary: fs)
  case Nil
  then show ?case by simp
next
  case (Cons w rest)
  show ?case
  proof (cases "w = (p, obj)")
    case True
    have "fs(p \<mapsto> take 0 (dump obj)) \<in> set (write_states p (dump obj) fs)"
      unfolding write_states_def set_map by (rule image_eqI [of _ _ 0]) simp_all
    then have m: "fs(p \<mapsto> []) \<in> set (dump_states dump (w # rest) fs)"
      using True by simp
    show ?thesis by (rule bexI [OF _ m]) simp
  next
    case False
    then have "(p, obj) \<in> set rest" using Cons.prems by simp
    then obtain s where "s \<in> set (dump_states dump rest (fs(fst w \<mapsto> dump (snd w))))" "s p = Some []"
      using Cons.IH by blast
    then show ?thesis by (cases w) auto
  qed
qed

lemma dump_states_final:
  "distinct (map fst ws) \<Longrightarrow> (p, obj) \<in> set ws \<Longrightarrow>
     last (fs # dump_states dump ws fs) p = Some (dump obj)"
proof (induction ws arbitrary: fs)
  case Nil
  then show ?case by simp
next
  case (Cons w rest)
  obtain path o' where w: "w = (path, o')" by (cases w)
  let ?fs' = "fs(path \<mapsto> dump o')"
  have l: "last (fs # dump_states dump (w # rest) fs) = last (?fs' # dump_states dump rest ?fs')"
    using write_states_not_Nil [of path "dump o'" fs]
    by (simp add: w write_states_last)
  show ?case
  proof (cases "(p, obj) \<in> set rest")
    case True
    then show ?thesis unfolding l using Cons by simp
  next
    case False
    then have e: "path = p" "o' = obj" using Cons.prems(2) w by simp_all
    have "p \<notin> fst ` set rest" using Cons.prems(1) w e by simp
    then have "\<And>s. s \<in> set (dump_states dump rest ?fs') \<Longrightarrow> s p = ?fs' p"
      using dump_states_content [of _ dump rest ?fs' p] by force
    then have "last (?fs' # dump_states dump rest ?fs') p = ?fs' p"
      by (cases "dump_states dump rest ?fs' = []") (simp_all add: last_in_set)
    then show ?thesis unfolding l using e by simp
  qed
qed

lemma Processor_save_set:
  "(p, obj) \<in> set (Processor_save fmt RANK D) \<longleftrightarrow>
     (\<exists>i<8. p = fmt (RANK * 8 + int i) \<and> obj = slice_from D i 8)"
proof -
  have "set (Processor_save fmt RANK D) =
          (\<lambda>i. (fmt (RANK * 8 + int i), slice_from D i 8)) ` {0..<8}"
    unfolding Processor_save_def by (simp only: set_map set_upt)
  then show ?thesis by (simp only: image_iff Bex_def atLeastLessThan_iff prod.inject) blast
qed

lemma Processor_save_states_opened:
  "Processor_save_states dump fmt RANK D fs ! 1 = fs(fmt (RANK * 8) \<mapsto> [])"
proof -
  have a: "Processor_save fmt RANK D =
             (fmt (RANK * 8), slice_from D 0 8) # tl (Processor_save fmt RANK D)"
    by (simp add: Processor_save_def upt_rec)
  have b: "write_states (fmt (RANK * 8)) (dump (slice_from D 0 8)) fs =
             fs(fmt (RANK * 8) \<mapsto> []) # tl (write_states (fmt (RANK * 8)) (dump (slice_from D 0 8)) fs)"
    by (simp add: write_states_def upt_conv_Cons del: upt_Suc)
  have "Processor_save_states dump fmt RANK D fs =
          fs # dump_states dump ((fmt (RANK * 8), slice_from D 0 8) # tl (Processor_save fmt RANK D)) fs"
    unfolding Processor_save_states_def using a by simp
  also have "\<dots> = fs # (fs(fmt (RANK * 8) \<mapsto> []) #
                tl (write_states (fmt (RANK * 8)) (dump (slice_from D 0 8)) fs)) @
                dump_states dump (tl (Processor_save fmt RANK D))
                  (fs(fmt (RANK * 8) \<mapsto> dump (slice_from D 0 8)))"
    using b by simp
  finally show ?thesis by simp
qed

text \<open>
  C6, as the code has it: \<^verbatim>\<open>save\<close> writes each artifact in place. It touches no path
  but the eight output paths, so there is no temporary file and no rename; an output
  path holds, at every moment of the call, what it held before or a prefix of the bytes
  of an artifact, and the empty file at the moment it is opened; when the eight paths
  differ, each holds its whole artifact after the call.
\<close>

theorem Processor_save_writes_in_place:
  "(\<forall>s \<in> set (Processor_save_states dump fmt RANK D fs). \<forall>p.
       s p = fs p \<or>
       (\<exists>i<8. \<exists>k. p = fmt (RANK * 8 + int i) \<and> s p = Some (take k (dump (slice_from D i 8))))) \<and>
   (\<forall>i<8. \<exists>s \<in> set (Processor_save_states dump fmt RANK D fs). s (fmt (RANK * 8 + int i)) = Some []) \<and>
   (distinct (map fst (Processor_save fmt RANK D)) \<longrightarrow>
      (\<forall>i<8. last (Processor_save_states dump fmt RANK D fs) (fmt (RANK * 8 + int i)) =
                Some (dump (slice_from D i 8))))"
proof (intro conjI ballI allI impI)
  fix s p
  assume "s \<in> set (Processor_save_states dump fmt RANK D fs)"
  then have "s = fs \<or> s \<in> set (dump_states dump (Processor_save fmt RANK D) fs)"
    by (simp add: Processor_save_states_def)
  then show "s p = fs p \<or>
       (\<exists>i<8. \<exists>k. p = fmt (RANK * 8 + int i) \<and> s p = Some (take k (dump (slice_from D i 8))))"
  proof
    assume "s = fs"
    then show ?thesis by simp
  next
    assume "s \<in> set (dump_states dump (Processor_save fmt RANK D) fs)"
    then have "s p = fs p \<or>
        (\<exists>obj k. (p, obj) \<in> set (Processor_save fmt RANK D) \<and> s p = Some (take k (dump obj)))"
      by (rule dump_states_content)
    then show ?thesis unfolding Processor_save_set by blast
  qed
next
  fix i :: nat
  assume i: "i < 8"
  then have "(fmt (RANK * 8 + int i), slice_from D i 8) \<in> set (Processor_save fmt RANK D)"
    unfolding Processor_save_set by blast
  then have "\<exists>s \<in> set (dump_states dump (Processor_save fmt RANK D) fs).
               s (fmt (RANK * 8 + int i)) = Some []"
    by (rule dump_states_opened)
  then obtain s where "s \<in> set (dump_states dump (Processor_save fmt RANK D) fs)"
      and "s (fmt (RANK * 8 + int i)) = Some []"
    by (rule bexE)
  then show "\<exists>s \<in> set (Processor_save_states dump fmt RANK D fs). s (fmt (RANK * 8 + int i)) = Some []"
    unfolding Processor_save_states_def by (simp only: list.set) blast
next
  fix i :: nat
  assume d: "distinct (map fst (Processor_save fmt RANK D))" and i: "i < 8"
  from i have "(fmt (RANK * 8 + int i), slice_from D i 8) \<in> set (Processor_save fmt RANK D)"
    unfolding Processor_save_set by blast
  with d show "last (Processor_save_states dump fmt RANK D fs) (fmt (RANK * 8 + int i)) =
                Some (dump (slice_from D i 8))"
    unfolding Processor_save_states_def by (rule dump_states_final)
qed

lemma example_first_slice: "slice_from example_documents 0 8 = [[[0]], [[8]]]"
  by (simp add: slice_from_def py_range_def example_documents_def upt_rec)

lemma example_paths_distinct:
  "distinct (map fst (Processor_save example_path_format 0 example_documents))"
  by (simp add: Processor_save_def example_path_format_def upt_rec eval_nat_numeral)

theorem Processor_save_writes_in_place_witness:
  "(\<exists>s \<in> set (Processor_save_states length_prefixed_dump example_path_format 0 example_documents Map.empty).
      s (example_path_format 0) = Some []) \<and>
   last (Processor_save_states length_prefixed_dump example_path_format 0 example_documents Map.empty)
     (example_path_format 0) = Some [2, 1, 1, 0, 1, 1, 8]"
proof -
  note t = Processor_save_writes_in_place
    [of length_prefixed_dump example_path_format 0 example_documents Map.empty]
  have a: "\<exists>s \<in> set (Processor_save_states length_prefixed_dump example_path_format 0 example_documents Map.empty).
      s (example_path_format 0) = Some []"
    using t [THEN conjunct2, THEN conjunct1, rule_format, of 0] by simp
  have b: "last (Processor_save_states length_prefixed_dump example_path_format 0 example_documents Map.empty)
     (example_path_format 0) = Some [2, 1, 1, 0, 1, 1, 8]"
    using t [THEN conjunct2, THEN conjunct2, rule_format, OF example_paths_distinct, of 0]
    by (simp add: example_first_slice length_prefixed_dump_def)
  from a b show ?thesis by (intro conjI)
qed

text \<open>
  Right after the first artifact is opened its output path holds the empty file, which
  is not the artifact.
\<close>

theorem Processor_save_all_or_nothing_counterexample:
  "(Processor_save_states length_prefixed_dump example_path_format 0 example_documents Map.empty ! 1)
     (example_path_format 0) = Some [] \<and>
   length_prefixed_dump (slice_from example_documents 0 8) = [2, 1, 1, 0, 1, 1, 8]"
  unfolding Processor_save_states_opened example_first_slice
  by (simp add: length_prefixed_dump_def)

subsection \<open>The steps of an epoch and the end of training\<close>











end
